theory Spec2Isabelle
  imports Main "HOL-Library.Word" "HOL-Library.Multiset"
begin

section \<open>Data model of pitr.go\<close>

text \<open>
  Go's \<open>int64\<close> and \<open>uint64\<close> are both 64-bit words; a comparison of two \<open>int64\<close>
  values compares their two's-complement readings (\<open>sint\<close>), and the conversion
  \<open>int64(x)\<close> of a \<open>uint64\<close> keeps the bits.
\<close>

type_synonym int64 = "64 word"

text \<open>The fields of \<open>Config\<close> that pitr.go reads.\<close>

record Config =
  Dir :: string
  StartTSO :: int64
  StopTSO :: int64
  schemaFile :: string
  PDURLs :: string
  reserveTempDir :: bool

text \<open>
  \<open>model.Job\<close>, with the two fields of its \<open>BinlogInfo\<close> that pitr.go reads.
  \<open>FinishedTS\<close> is unsigned in the library and converted with \<open>int64(...)\<close> before it is
  compared.
\<close>

record Job =
  ID :: int64
  SchemaVersion :: int64
  FinishedTS :: int64
  Query :: string

record Binlog =
  CommitTs :: int64

text \<open>\<open>historyDDLHandler\<close>; a nil slice and an empty slice are both \<open>[]\<close>.\<close>

record historyDDLHandler =
  ddlSQLs :: "string list"
  ddlJobs :: "Job list"

text \<open>
  A message built by \<open>fmt.Sprintf\<close> (or the fields given to the logger) is kept
  unrendered: the format string and its arguments.
\<close>

datatype fmt_arg = ArgInt int64 | ArgStr string | ArgConfig Config | ArgJob Job

datatype message = Msg string "fmt_arg list"

text \<open>
  Errors: a failure reported by a collaborator, or one wrapped by \<open>errors.Annotate\<close> or
  \<open>errors.Trace\<close>. An \<open>error option\<close> is a Go \<open>error\<close>, \<open>None\<close> being \<open>nil\<close>.
\<close>

datatype error = Failure string | Annotated error message | Traced error

text \<open>
  \<open>errors.Annotate\<close> and \<open>errors.Trace\<close> of github.com/pingcap/errors return \<open>nil\<close>
  when the error they are given is \<open>nil\<close>; \<open>fetchDDLBeforeStartTSO\<close> depends on this
  when it annotates and traces the error of a successful load. Each wrapping is recorded;
  the library may leave out a repeated stack trace, which nothing below observes.
\<close>

fun Annotate :: "error option \<Rightarrow> message \<Rightarrow> error option" where
  "Annotate None m = None"
| "Annotate (Some e) m = Some (Annotated e m)"

fun Trace :: "error option \<Rightarrow> error option" where
  "Trace None = None"
| "Trace (Some e) = Some (Traced e)"

section \<open>The collaborators and the state they act on\<close>

text \<open>
  Every call that leaves pitr.go is recorded in a trace, as is every entry into
  \<open>historyDDLHandler.execute\<close>.
\<close>

datatype event =
    Call_searchFiles string
  | Call_filterFiles "string list" int64 int64
  | Call_getFirstBinlogCommitTSAndFileSize string
  | Call_ReadFile string
  | Call_NewURLsValue string
  | Call_Register string
  | Call_store_New string
  | Call_CurrentVersion string
  | Call_GetSnapshot string int64
  | Call_GetAllHistoryDDLJobs string int64
  | Call_Storage_Close string
  | Call_UnRegister string
  | Call_NewMerge "string list" int64
  | Call_Map int64 int64
  | Call_Reduce
  | Call_merge_Close bool
  | Call_ExecuteDDL string string
  | Call_ExecuteHistoryDDLs "Job list"
  | Enter_execute
  | Log_Info message

text \<open>
  The state: the schema catalog that \<open>ddlHandle\<close> mutates (of any type \<open>'c\<close>), the names
  in the process-wide driver registry of the \<open>store\<close> package, the storages that are
  open (a storage is named by its path), and the trace.
\<close>

record 'c world =
  catalog :: 'c
  stores :: "string list"
  opened :: "string list"
  trace :: "event list"

text \<open>
  The outcomes of the collaborators, which are not part of pitr.go. A call that returns
  \<open>(value, error)\<close> and whose value is read only when the error is \<open>nil\<close> is a sum.
  \<open>NewURLsValue\<close> gives the \<open>HostString()\<close> of the parsed value. A snapshot is named by
  its storage and version. \<open>sort_Slice\<close> is Go's \<open>sort.Slice\<close>, which is not stable.
\<close>

record 'c env =
  searchFiles :: "string \<Rightarrow> error + string list"
  filterFiles :: "string list \<Rightarrow> int64 \<Rightarrow> int64 \<Rightarrow> error + (string list \<times> int64)"
  getFirstBinlogCommitTSAndFileSize :: "string \<Rightarrow> error + (int64 \<times> int64)"
  ReadFile :: "string \<Rightarrow> error + string"
  NewURLsValue :: "string \<Rightarrow> error + string"
  store_New :: "string \<Rightarrow> error option"
  CurrentVersion :: "string \<Rightarrow> error + int64"
  GetSnapshot :: "string \<Rightarrow> int64 \<Rightarrow> error option"
  GetAllHistoryDDLJobs :: "string \<Rightarrow> int64 \<Rightarrow> error + Job list"
  sort_Slice :: "(Job \<Rightarrow> Job \<Rightarrow> bool) \<Rightarrow> Job list \<Rightarrow> Job list"
  NewMerge :: "string list \<Rightarrow> int64 \<Rightarrow> error option"
  merge_Map :: "int64 \<Rightarrow> int64 \<Rightarrow> error + bool"
  merge_Reduce :: "error option"
  ExecuteDDL :: "string \<Rightarrow> string \<Rightarrow> 'c \<Rightarrow> error option \<times> 'c"
  ExecuteHistoryDDLs :: "Job list \<Rightarrow> 'c \<Rightarrow> error option \<times> 'c"

definition emit :: "event \<Rightarrow> 'c world \<Rightarrow> 'c world" where
  "emit e w = w\<lparr>trace := trace w @ [e]\<rparr>"

text \<open>
  The contract of \<open>sort.Slice\<close>: the slice is permuted, and when the \<open>less\<close> function
  is a strict weak ordering (as Go asks of it: irreflexive, transitive, and transitive
  on the pairs it does not relate) no later element is less than an earlier one.
\<close>

definition strict_weak_order :: "('a \<Rightarrow> 'a \<Rightarrow> bool) \<Rightarrow> bool" where
  "strict_weak_order lt \<longleftrightarrow>
     (\<forall>a. \<not> lt a a) \<and>
     (\<forall>a b c. lt a b \<longrightarrow> lt b c \<longrightarrow> lt a c) \<and>
     (\<forall>a b c. \<not> lt a b \<longrightarrow> \<not> lt b c \<longrightarrow> \<not> lt a c)"

definition sort_Slice_contract :: "(('a \<Rightarrow> 'a \<Rightarrow> bool) \<Rightarrow> 'a list \<Rightarrow> 'a list) \<Rightarrow> bool" where
  "sort_Slice_contract srt \<longleftrightarrow>
     (\<forall>lt xs. mset (srt lt xs) = mset xs \<and>
        (strict_weak_order lt \<longrightarrow> sorted_wrt (\<lambda>a b. \<not> lt b a) (srt lt xs)))"

text \<open>
  The driver registry of the \<open>store\<close> package: \<open>Register\<close> fails on a name that is
  registered already, \<open>UnRegister\<close> deletes the name.
\<close>

definition store_Register :: "string \<Rightarrow> 'c world \<Rightarrow> error option \<times> 'c world" where
  "store_Register name w =
     (let w1 = emit (Call_Register name) w in
      if name \<in> set (stores w1) then (Some (Failure (name @ '' is already registered'')), w1)
      else (None, w1\<lparr>stores := name # stores w1\<rparr>))"

definition store_UnRegister :: "string \<Rightarrow> 'c world \<Rightarrow> 'c world" where
  "store_UnRegister name w =
     (let w1 = emit (Call_UnRegister name) w in w1\<lparr>stores := removeAll name (stores w1)\<rparr>)"

definition Storage_Close :: "string \<Rightarrow> 'c world \<Rightarrow> 'c world" where
  "Storage_Close st w =
     (let w1 = emit (Call_Storage_Close st) w in w1\<lparr>opened := remove1 st (opened w1)\<rparr>)"

section \<open>The functions of pitr.go\<close>

subsection \<open>historyDDLHandler.execute\<close>

text \<open>The \<open>for\<close> loop of \<open>execute\<close> over \<open>h.ddlSQLs\<close>: it returns at the first error.\<close>

fun execute_ddlSQLs :: "'c env \<Rightarrow> string list \<Rightarrow> 'c world \<Rightarrow> error option \<times> 'c world" where
  "execute_ddlSQLs E [] w = (None, w)"
| "execute_ddlSQLs E (ddl # ddls) w =
     (let (err, c) = ExecuteDDL E [] ddl (catalog w);
          w1 = emit (Call_ExecuteDDL [] ddl) (w\<lparr>catalog := c\<rparr>)
      in case err of
           Some e \<Rightarrow> (Some e, w1)
         | None \<Rightarrow> execute_ddlSQLs E ddls w1)"

definition execute :: "'c env \<Rightarrow> historyDDLHandler \<Rightarrow> 'c world \<Rightarrow> error option \<times> 'c world" where
  "execute E h w =
     (let w0 = emit Enter_execute w in
      if length (ddlJobs h) \<noteq> 0 then
        (let (err, c) = ExecuteHistoryDDLs E (ddlJobs h) (catalog w0)
         in (err, emit (Call_ExecuteHistoryDDLs (ddlJobs h)) (w0\<lparr>catalog := c\<rparr>)))
      else execute_ddlSQLs E (ddlSQLs h) w0)"

subsection \<open>LoadBaseSchema\<close>

text \<open>
  \<open>strings.Split(s, sep)\<close> for a separator of one byte: the pieces of \<open>s\<close> between the
  occurrences of the separator; \<open>n\<close> occurrences give \<open>n + 1\<close> pieces, empty ones
  included.
\<close>

fun strings_Split :: "string \<Rightarrow> char \<Rightarrow> string list" where
  "strings_Split [] sep = [[]]"
| "strings_Split (c # s) sep =
     (if c = sep then [] # strings_Split s sep
      else (case strings_Split s sep of
              [] \<Rightarrow> [[c]]
            | piece # pieces \<Rightarrow> (c # piece) # pieces))"

definition newline :: char where
  "newline = CHR 0x0A"

definition LoadBaseSchema ::
  "'c env \<Rightarrow> Config \<Rightarrow> 'c world \<Rightarrow> (string list \<times> error option) \<times> 'c world" where
  "LoadBaseSchema E cfg w =
     (let w1 = emit (Call_ReadFile (schemaFile cfg)) w in
      case ReadFile E (schemaFile cfg) of
        Inl e \<Rightarrow> (([], Some e), w1)
      | Inr content \<Rightarrow> ((strings_Split content newline, None), w1))"

subsection \<open>isAcceptableBinlog\<close>

definition isAcceptableBinlog :: "Binlog \<Rightarrow> int64 \<Rightarrow> int64 \<Rightarrow> bool" where
  "isAcceptableBinlog binlog startTs endTs \<longleftrightarrow>
     sint (CommitTs binlog) \<ge> sint startTs \<and>
     (endTs = 0 \<or> sint (CommitTs binlog) \<le> sint endTs)"

subsection \<open>createTiStore, getSnapshotMeta, loadHistoryDDLJobs\<close>

text \<open>
  In the three functions below every error is returned behind \<open>if err != nil\<close>, so
  \<open>errors.Trace(err)\<close> is \<open>Traced e\<close> there.
\<close>

definition createTiStore :: "'c env \<Rightarrow> string \<Rightarrow> 'c world \<Rightarrow> (error + string) \<times> 'c world" where
  "createTiStore E urls w =
     (let w1 = emit (Call_NewURLsValue urls) w in
      case NewURLsValue E urls of
        Inl e \<Rightarrow> (Inl (Traced e), w1)
      | Inr host \<Rightarrow>
          (case store_Register ''tikv'' w1 of
             (Some e, w2) \<Rightarrow> (Inl (Traced e), w2)
           | (None, w2) \<Rightarrow>
               (let tiPath = ''tikv://'' @ host @ ''?disableGC=true'';
                    w3 = emit (Call_store_New tiPath) w2
                in case store_New E tiPath of
                     Some e \<Rightarrow> (Inl (Traced e), w3)
                   | None \<Rightarrow> (Inr tiPath, w3\<lparr>opened := tiPath # opened w3\<rparr>))))"

definition getSnapshotMeta :: "'c env \<Rightarrow> string \<Rightarrow> 'c world \<Rightarrow> (error + string \<times> int64) \<times> 'c world" where
  "getSnapshotMeta E tiStore w =
     (let w1 = emit (Call_CurrentVersion tiStore) w in
      case CurrentVersion E tiStore of
        Inl e \<Rightarrow> (Inl (Traced e), w1)
      | Inr version \<Rightarrow>
          (let w2 = emit (Call_GetSnapshot tiStore version) w1 in
           case GetSnapshot E tiStore version of
             Some e \<Rightarrow> (Inl (Traced e), w2)
           | None \<Rightarrow> (Inr (tiStore, version), w2)))"

text \<open>The \<open>less\<close> function given to \<open>sort.Slice\<close>.\<close>

definition job_less :: "Job \<Rightarrow> Job \<Rightarrow> bool" where
  "job_less a b \<longleftrightarrow> sint (SchemaVersion a) < sint (SchemaVersion b)"

text \<open>
  The \<open>for\<close> loop over the sorted jobs; \<open>jobs\<close> is the slice appended to.
\<close>

fun select_jobs :: "int64 \<Rightarrow> Job list \<Rightarrow> Job list \<Rightarrow> 'c world \<Rightarrow> Job list \<times> 'c world" where
  "select_jobs beginTS [] jobs w = (jobs, w)"
| "select_jobs beginTS (job # rest) jobs w =
     (if sint (FinishedTS job) < sint beginTS
      then select_jobs beginTS rest (jobs @ [job]) w
      else select_jobs beginTS rest jobs
             (emit (Log_Info (Msg ''ignore history ddl job'' [ArgJob job])) w))"

text \<open>
  The statements of \<open>loadHistoryDDLJobs\<close> that follow the \<open>defer\<close>, and then the
  function itself: the deferred closure runs on every return that follows the
  \<open>defer\<close> statement, and on none before it.
\<close>

definition loadHistoryDDLJobs_deferred ::
  "'c env \<Rightarrow> string \<Rightarrow> int64 \<Rightarrow> 'c world \<Rightarrow> (Job list \<times> error option) \<times> 'c world" where
  "loadHistoryDDLJobs_deferred E tiStore beginTS w =
     (case getSnapshotMeta E tiStore w of
        (Inl e, w1) \<Rightarrow> (([], Some (Traced e)), w1)
      | (Inr (st, version), w1) \<Rightarrow>
          (let w2 = emit (Call_GetAllHistoryDDLJobs st version) w1 in
           case GetAllHistoryDDLJobs E st version of
             Inl e \<Rightarrow> (([], Some (Traced e)), w2)
           | Inr allJobs \<Rightarrow>
               (let allJobs = sort_Slice E job_less allJobs;
                    (jobs, w3) = select_jobs beginTS allJobs [] w2
                in ((jobs, None), w3))))"

definition loadHistoryDDLJobs ::
  "'c env \<Rightarrow> Config \<Rightarrow> int64 \<Rightarrow> 'c world \<Rightarrow> (Job list \<times> error option) \<times> 'c world" where
  "loadHistoryDDLJobs E cfg beginTS w =
     (case createTiStore E (PDURLs cfg) w of
        (Inl e, w1) \<Rightarrow> (([], Some (Traced e)), w1)
      | (Inr tiStore, w1) \<Rightarrow>
          (let (res, w2) = loadHistoryDDLJobs_deferred E tiStore beginTS w1;
               w3 = Storage_Close tiStore w2;
               w4 = store_UnRegister ''tikv'' w3
           in (res, w4)))"

subsection \<open>fetchDDLBeforeStartTSO\<close>

definition fetchDDLBeforeStartTSO ::
  "'c env \<Rightarrow> Config \<Rightarrow> int64 \<Rightarrow> 'c world \<Rightarrow> (historyDDLHandler \<times> error option) \<times> 'c world" where
  "fetchDDLBeforeStartTSO E cfg startTSO w =
     (let historyDDLs = \<lparr>ddlSQLs = [], ddlJobs = []\<rparr> in
      if length (schemaFile cfg) \<noteq> 0 then
        (let ((sqls, err), w1) = LoadBaseSchema E cfg w
         in ((historyDDLs\<lparr>ddlSQLs := sqls\<rparr>, Trace err), w1))
      else if length (PDURLs cfg) \<noteq> 0 then
        (let ((jobs, err), w1) = loadHistoryDDLJobs E cfg startTSO w;
             err = Annotate err (Msg ''load history ddls'' [])
         in ((historyDDLs\<lparr>ddlJobs := jobs\<rparr>, Trace err), w1))
      else ((historyDDLs, Trace None), w))"

subsection \<open>Process\<close>

text \<open>
  The statements of \<open>Process\<close> that follow \<open>defer merge.Close(...)\<close>, and then the
  function itself; the deferred \<open>Close\<close> runs on every return after the \<open>defer\<close>, and
  its result is dropped.
\<close>

definition Process_deferred ::
  "'c env \<Rightarrow> Config \<Rightarrow> historyDDLHandler \<Rightarrow> int64 \<Rightarrow> 'c world \<Rightarrow> error option \<times> 'c world" where
  "Process_deferred E cfg historyDDLs startTSO w =
     (case execute E historyDDLs w of
        (Some e, w1) \<Rightarrow> (Some e, w1)
      | (None, w1) \<Rightarrow>
          (let w2 = emit (Call_Map startTSO (StopTSO cfg)) w1 in
           case merge_Map E startTSO (StopTSO cfg) of
             Inl e \<Rightarrow> (Some (Traced e), w2)
           | Inr noEventIsFound \<Rightarrow>
               if noEventIsFound then
                 (None, emit (Log_Info (Msg ''no event is found between [%d, %d]''
                                          [ArgInt startTSO, ArgInt (StopTSO cfg)])) w2)
               else
                 (case execute E historyDDLs w2 of
                    (Some e, w3) \<Rightarrow> (Some (Traced e), w3)
                  | (None, w3) \<Rightarrow> (merge_Reduce E, emit Call_Reduce w3))))"

text \<open>Lines 88 to 111: from the schema history on.\<close>

definition Process_from_history ::
  "'c env \<Rightarrow> Config \<Rightarrow> string list \<Rightarrow> int64 \<Rightarrow> int64 \<Rightarrow> 'c world \<Rightarrow> error option \<times> 'c world" where
  "Process_from_history E cfg files fileSize startTSO w =
     (case fetchDDLBeforeStartTSO E cfg startTSO w of
        ((historyDDLs, Some e), w1) \<Rightarrow> (Some (Traced e), w1)
      | ((historyDDLs, None), w1) \<Rightarrow>
          (let w2 = emit (Call_NewMerge files fileSize) w1 in
           case NewMerge E files fileSize of
             Some e \<Rightarrow> (Some (Traced e), w2)
           | None \<Rightarrow>
               (let (res, w3) = Process_deferred E cfg historyDDLs startTSO w2
                in (res, emit (Call_merge_Close (reserveTempDir cfg)) w3))))"

definition Process :: "'c env \<Rightarrow> Config \<Rightarrow> 'c world \<Rightarrow> error option \<times> 'c world" where
  "Process E cfg w =
     (let w1 = emit (Call_searchFiles (Dir cfg)) w in
      case searchFiles E (Dir cfg) of
        Inl e \<Rightarrow>
          (Annotate (Some e) (Msg ''search files in directory %s failed'' [ArgStr (Dir cfg)]), w1)
      | Inr files \<Rightarrow>
          if length files = 0 then
            (Annotate None (Msg ''no file is searched in directory %s'' [ArgConfig cfg]), w1)
          else
            (let w2 = emit (Call_filterFiles files (StartTSO cfg) (StopTSO cfg)) w1 in
             case filterFiles E files (StartTSO cfg) (StopTSO cfg) of
               Inl e \<Rightarrow> (Annotate (Some e) (Msg ''filterFiles failed'' []), w2)
             | Inr (files, fileSize) \<Rightarrow>
                 (case files of
                    [] \<Rightarrow>
                      (Annotate None
                         (Msg ''no files remained between the time interval [%d, %d]''
                            [ArgInt (StartTSO cfg), ArgInt (StopTSO cfg)]), w2)
                  | file0 # _ \<Rightarrow>
                      if StartTSO cfg = 0 then
                        (let w3 = emit (Call_getFirstBinlogCommitTSAndFileSize file0) w2 in
                         case getFirstBinlogCommitTSAndFileSize E file0 of
                           Inl e \<Rightarrow>
                             (Annotate (Some e) (Msg ''get first binlog commit ts failed'' []), w3)
                         | Inr (startTSO, _) \<Rightarrow>
                             Process_from_history E cfg files fileSize startTSO w3)
                      else Process_from_history E cfg files fileSize (StartTSO cfg) w2)))"

section \<open>The acceptance predicate in the words of the specification\<close>

definition isAcceptable_spec :: "int \<Rightarrow> int \<Rightarrow> int \<Rightarrow> bool" where
  "isAcceptable_spec commitTs s t \<longleftrightarrow> commitTs \<ge> s \<and> (t = 0 \<or> commitTs \<le> t)"

section \<open>The split in terms of its inverse\<close>

text \<open>
  \<open>strings.Join\<close> for a separator of one byte. It is not called by pitr.go; it states
  what \<open>strings_Split\<close> returns: the pieces that, joined again, give the content.
\<close>

fun strings_Join :: "string list \<Rightarrow> char \<Rightarrow> string" where
  "strings_Join [] sep = []"
| "strings_Join [p] sep = p"
| "strings_Join (p # q # ps) sep = p @ sep # strings_Join (q # ps) sep"

section \<open>Classes of trace events\<close>

fun is_ddl_call :: "event \<Rightarrow> bool" where
  "is_ddl_call (Call_ExecuteDDL schema ddl) = True"
| "is_ddl_call (Call_ExecuteHistoryDDLs jobs) = True"
| "is_ddl_call _ = False"

fun is_store_call :: "event \<Rightarrow> bool" where
  "is_store_call (Call_NewURLsValue urls) = True"
| "is_store_call (Call_Register name) = True"
| "is_store_call (Call_store_New path) = True"
| "is_store_call (Call_CurrentVersion st) = True"
| "is_store_call (Call_GetSnapshot st version) = True"
| "is_store_call (Call_GetAllHistoryDDLJobs st version) = True"
| "is_store_call (Call_Storage_Close st) = True"
| "is_store_call (Call_UnRegister name) = True"
| "is_store_call _ = False"

fun is_resolver_event :: "event \<Rightarrow> bool" where
  "is_resolver_event (Call_ReadFile path) = True"
| "is_resolver_event (Log_Info m) = True"
| "is_resolver_event e = is_store_call e"

section \<open>A concrete environment\<close>

text \<open>An insertion sort, as one function that meets the contract of \<open>sort.Slice\<close>.\<close>

fun insert_by :: "('a \<Rightarrow> 'a \<Rightarrow> bool) \<Rightarrow> 'a \<Rightarrow> 'a list \<Rightarrow> 'a list" where
  "insert_by lt x [] = [x]"
| "insert_by lt x (y # ys) = (if lt x y then x # y # ys else y # insert_by lt x ys)"

fun insertion_sort :: "('a \<Rightarrow> 'a \<Rightarrow> bool) \<Rightarrow> 'a list \<Rightarrow> 'a list" where
  "insertion_sort lt [] = []"
| "insertion_sort lt (x # xs) = insert_by lt x (insertion_sort lt xs)"

text \<open>
  Four history jobs in the order of their identifiers, with schema versions 5, 1, 3
  and 7; the last one finishes at timestamp 100.
\<close>

definition job_a :: Job where
  "job_a = \<lparr>ID = 1, SchemaVersion = 5, FinishedTS = 90, Query = ''alter table t add b int''\<rparr>"

definition job_b :: Job where
  "job_b = \<lparr>ID = 2, SchemaVersion = 1, FinishedTS = 40, Query = ''create table t (a int)''\<rparr>"

definition job_c :: Job where
  "job_c = \<lparr>ID = 3, SchemaVersion = 3, FinishedTS = 60, Query = ''create table u (a int)''\<rparr>"

definition job_d :: Job where
  "job_d = \<lparr>ID = 4, SchemaVersion = 7, FinishedTS = 100, Query = ''drop table u''\<rparr>"

text \<open>A schema file of two statements with a blank line between them and a final newline.\<close>

definition schema_content :: string where
  "schema_content = ''t1;'' @ [newline, newline] @ ''t2;'' @ [newline]"

text \<open>
  An environment in which every collaborator succeeds; its catalog is the list of the
  statements applied so far, and its map phase finds an event.
\<close>

definition E_ok :: "(string list) env" where
  "E_ok =
     \<lparr>searchFiles = (\<lambda>dir. Inr [''binlog-0'', ''binlog-1'']),
      filterFiles = (\<lambda>files s t. Inr (files, 2048)),
      getFirstBinlogCommitTSAndFileSize = (\<lambda>file. Inr (100, 1024)),
      ReadFile = (\<lambda>path. Inr schema_content),
      NewURLsValue = (\<lambda>urls. Inr ''127.0.0.1:2379''),
      store_New = (\<lambda>path. None),
      CurrentVersion = (\<lambda>st. Inr 400),
      GetSnapshot = (\<lambda>st version. None),
      GetAllHistoryDDLJobs = (\<lambda>st version. Inr [job_a, job_b, job_c, job_d]),
      sort_Slice = insertion_sort,
      NewMerge = (\<lambda>files fileSize. None),
      merge_Map = (\<lambda>s t. Inr False),
      merge_Reduce = None,
      ExecuteDDL = (\<lambda>schema ddl c. (None, c @ [ddl])),
      ExecuteHistoryDDLs = (\<lambda>jobs c. (None, c @ map Query jobs))\<rparr>"

text \<open>Variations: one collaborator behaves differently.\<close>

definition E_no_event :: "(string list) env" where
  "E_no_event = E_ok\<lparr>merge_Map := (\<lambda>s t. Inr True)\<rparr>"

definition E_no_files :: "(string list) env" where
  "E_no_files = E_ok\<lparr>searchFiles := (\<lambda>dir. Inr [])\<rparr>"

definition E_none_in_window :: "(string list) env" where
  "E_none_in_window = E_ok\<lparr>filterFiles := (\<lambda>files s t. Inr ([], 0))\<rparr>"

definition E_store_down :: "(string list) env" where
  "E_store_down = E_ok\<lparr>store_New := (\<lambda>path. Some (Failure ''connection refused''))\<rparr>"

definition E_reject_empty :: "(string list) env" where
  "E_reject_empty =
     E_ok\<lparr>ExecuteDDL := (\<lambda>schema ddl c.
            if ddl = [] then (Some (Failure ''query was empty''), c) else (None, c @ [ddl]))\<rparr>"

text \<open>Configurations: both schema sources set, only the store endpoints, neither.\<close>

definition cfg_both :: Config where
  "cfg_both =
     \<lparr>Dir = ''data'', StartTSO = 100, StopTSO = 0, schemaFile = ''schema.sql'',
      PDURLs = ''http://127.0.0.1:2379'', reserveTempDir = False\<rparr>"

definition cfg_pd :: Config where
  "cfg_pd = cfg_both\<lparr>schemaFile := []\<rparr>"

definition cfg_neither :: Config where
  "cfg_neither = cfg_both\<lparr>schemaFile := [], PDURLs := []\<rparr>"

definition w_init :: "(string list) world" where
  "w_init = \<lparr>catalog = [], stores = [], opened = [], trace = []\<rparr>"

section \<open>Auxiliary facts\<close>

subsection \<open>Evaluation\<close>

lemmas model_defs =
  Process_def Process_from_history_def Process_deferred_def fetchDDLBeforeStartTSO_def
  loadHistoryDDLJobs_def loadHistoryDDLJobs_deferred_def createTiStore_def
  getSnapshotMeta_def store_Register_def store_UnRegister_def Storage_Close_def
  LoadBaseSchema_def execute_def emit_def Let_def

lemmas demo_defs =
  E_ok_def E_no_event_def E_no_files_def E_none_in_window_def E_store_down_def
  E_reject_empty_def cfg_both_def cfg_pd_def cfg_neither_def w_init_def
  job_a_def job_b_def job_c_def job_d_def schema_content_def newline_def job_less_def

subsection \<open>The trace and the insertion sort\<close>

lemma emit_simps [simp]:
  "trace (emit e w) = trace w @ [e]"
  "catalog (emit e w) = catalog w"
  "stores (emit e w) = stores w"
  "opened (emit e w) = opened w"
  by (simp_all add: emit_def)

lemma insert_by_mset: "mset (insert_by lt x xs) = add_mset x (mset xs)"
  by (induction xs) auto

lemma insertion_sort_mset: "mset (insertion_sort lt xs) = mset xs"
  by (induction xs) (auto simp: insert_by_mset)

lemma insert_by_set: "set (insert_by lt x xs) = insert x (set xs)"
  by (induction xs) auto

lemma insert_by_sorted:
  assumes "strict_weak_order lt" "sorted_wrt (\<lambda>a b. \<not> lt b a) xs"
  shows "sorted_wrt (\<lambda>a b. \<not> lt b a) (insert_by lt x xs)"
  using assms(2)
proof (induction xs)
  case Nil
  then show ?case by simp
next
  case (Cons y ys)
  from assms(1) have irr: "\<And>a. \<not> lt a a"
    unfolding strict_weak_order_def by blast
  from assms(1) have tr: "\<And>a b c. lt a b \<Longrightarrow> lt b c \<Longrightarrow> lt a c"
    unfolding strict_weak_order_def by blast
  show ?case
  proof (cases "lt x y")
    case True
    have "\<not> lt y x" using True irr tr by blast
    moreover have "\<not> lt z x" if "z \<in> set ys" for z
    proof
      assume "lt z x"
      then have "lt z y" using True tr by blast
      with Cons.prems that show False by auto
    qed
    ultimately show ?thesis using True Cons.prems by auto
  next
    case False
    then show ?thesis using Cons by (auto simp: insert_by_set)
  qed
qed

lemma insertion_sort_sorted:
  "strict_weak_order lt \<Longrightarrow> sorted_wrt (\<lambda>a b. \<not> lt b a) (insertion_sort lt xs)"
  by (induction xs) (auto intro: insert_by_sorted)

lemma insertion_sort_contract: "sort_Slice_contract insertion_sort"
  by (simp add: sort_Slice_contract_def insertion_sort_mset insertion_sort_sorted)

lemma job_less_strict_weak_order: "strict_weak_order job_less"
  unfolding strict_weak_order_def job_less_def by (intro conjI allI impI) linarith+

lemma select_jobs_fst:
  "fst (select_jobs b xs acc w) = acc @ filter (\<lambda>j. sint (FinishedTS j) < sint b) xs"
  by (induction xs arbitrary: acc w) auto

lemma select_jobs_trace:
  "trace (snd (select_jobs b xs acc w)) =
     trace w @ map (\<lambda>j. Log_Info (Msg ''ignore history ddl job'' [ArgJob j]))
                 (filter (\<lambda>j. \<not> sint (FinishedTS j) < sint b) xs)"
  by (induction xs arbitrary: acc w) auto

lemma select_jobs_frame:
  "catalog (snd (select_jobs b xs acc w)) = catalog w \<and>
   stores (snd (select_jobs b xs acc w)) = stores w \<and>
   opened (snd (select_jobs b xs acc w)) = opened w"
  by (induction xs arbitrary: acc w) auto

subsection \<open>The job resolver\<close>

lemma loadHistoryDDLJobs_deferred_ok:
  assumes "getSnapshotMeta E st w = (Inr (st', ver), w1)"
      and "GetAllHistoryDDLJobs E st' ver = Inr allJobs"
  shows "fst (loadHistoryDDLJobs_deferred E st beginTS w) =
           (filter (\<lambda>j. sint (FinishedTS j) < sint beginTS) (sort_Slice E job_less allJobs), None)"
    and "trace (snd (loadHistoryDDLJobs_deferred E st beginTS w)) =
           trace w1 @ Call_GetAllHistoryDDLJobs st' ver #
             map (\<lambda>j. Log_Info (Msg ''ignore history ddl job'' [ArgJob j]))
               (filter (\<lambda>j. \<not> sint (FinishedTS j) < sint beginTS) (sort_Slice E job_less allJobs))"
  using assms
  by (simp_all add: loadHistoryDDLJobs_deferred_def Let_def split_beta select_jobs_fst
        select_jobs_trace)

lemma loadHistoryDDLJobs_jobs_cases:
  "fst (fst (loadHistoryDDLJobs E cfg beginTS w)) = [] \<or>
   (\<exists>allJobs. fst (fst (loadHistoryDDLJobs E cfg beginTS w)) =
     filter (\<lambda>j. sint (FinishedTS j) < sint beginTS) (sort_Slice E job_less allJobs))"
  by (auto simp: loadHistoryDDLJobs_def loadHistoryDDLJobs_deferred_def Let_def split_beta
      select_jobs_fst split: prod.splits sum.splits)

lemma sorted_by_SchemaVersion:
  assumes "sort_Slice_contract (sort_Slice E)"
  shows "sorted_wrt (\<lambda>a b. sint (SchemaVersion a) \<le> sint (SchemaVersion b))
           (filter P (sort_Slice E job_less allJobs))"
proof -
  have "sorted_wrt (\<lambda>a b. \<not> job_less b a) (sort_Slice E job_less allJobs)"
    using assms job_less_strict_weak_order by (simp add: sort_Slice_contract_def)
  then have "sorted_wrt (\<lambda>a b. \<not> job_less b a) (filter P (sort_Slice E job_less allJobs))"
    by (rule sorted_wrt_filter)
  then show ?thesis by (simp add: job_less_def not_less)
qed

subsection \<open>Events of each function\<close>

lemma execute_ddlSQLs_trace:
  "execute_ddlSQLs E ddls w = (r, w') \<Longrightarrow>
     \<exists>n\<le>length ddls. trace w' = trace w @ map (Call_ExecuteDDL []) (take n ddls) \<and>
       (r = None \<longrightarrow> n = length ddls) \<and>
       (r \<noteq> None \<longrightarrow> 0 < n \<and> (\<exists>c. ExecuteDDL E [] (ddls ! (n - 1)) c = (r, catalog w')))"
proof (induction ddls arbitrary: w)
  case Nil
  then show ?case by auto
next
  case (Cons ddl ddls)
  obtain err c where ex: "ExecuteDDL E [] ddl (catalog w) = (err, c)"
    by (cases "ExecuteDDL E [] ddl (catalog w)")
  let ?w1 = "emit (Call_ExecuteDDL [] ddl) (w\<lparr>catalog := c\<rparr>)"
  show ?case
  proof (cases err)
    case (Some e)
    with Cons.prems ex have "r = Some e" "w' = ?w1" by (auto simp: Let_def)
    with ex Some have "trace w' = trace w @ map (Call_ExecuteDDL []) (take 1 (ddl # ddls))"
      "ExecuteDDL E [] ((ddl # ddls) ! (1 - 1)) (catalog w) = (r, catalog w')"
      by simp_all
    with \<open>r = Some e\<close> show ?thesis
      by (intro exI[of _ 1]) auto
  next
    case None
    with Cons.prems ex have "execute_ddlSQLs E ddls ?w1 = (r, w')" by (simp add: Let_def)
    from Cons.IH [OF this] obtain n where n: "n \<le> length ddls"
      "trace w' = trace ?w1 @ map (Call_ExecuteDDL []) (take n ddls)"
      "r = None \<longrightarrow> n = length ddls"
      "r \<noteq> None \<longrightarrow> 0 < n \<and> (\<exists>c. ExecuteDDL E [] (ddls ! (n - 1)) c = (r, catalog w'))"
      by blast
    have "r \<noteq> None \<longrightarrow> (\<exists>c. ExecuteDDL E [] ((ddl # ddls) ! (Suc n - 1)) c = (r, catalog w'))"
      using n(4) by (cases n) auto
    with n show ?thesis
      by (intro exI[of _ "Suc n"]) auto
  qed
qed

text \<open>
  The loop step by step: the catalogs \<open>cs\<close> it goes through, each application acting on
  the catalog left by the one before, all but the last returning \<open>nil\<close>.
\<close>

lemma execute_ddlSQLs_steps:
  "execute_ddlSQLs E ddls w = (r, w') \<Longrightarrow>
     \<exists>n cs. n \<le> length ddls \<and> length cs = Suc n \<and>
       cs ! 0 = catalog w \<and> cs ! n = catalog w' \<and>
       trace w' = trace w @ map (Call_ExecuteDDL []) (take n ddls) \<and>
       stores w' = stores w \<and> opened w' = opened w \<and>
       (\<forall>i<n. ExecuteDDL E [] (ddls ! i) (cs ! i) =
                 (if Suc i = n then r else None, cs ! Suc i)) \<and>
       (r = None \<longrightarrow> n = length ddls) \<and> (r \<noteq> None \<longrightarrow> 0 < n)"
proof (induction ddls arbitrary: w)
  case Nil
  then show ?case
    by (intro exI[of _ 0] exI[of _ "[catalog w]"]) auto
next
  case (Cons ddl ddls)
  obtain err c where ex: "ExecuteDDL E [] ddl (catalog w) = (err, c)"
    by (cases "ExecuteDDL E [] ddl (catalog w)")
  let ?w1 = "emit (Call_ExecuteDDL [] ddl) (w\<lparr>catalog := c\<rparr>)"
  show ?case
  proof (cases err)
    case (Some e)
    with Cons.prems ex have "r = Some e" "w' = ?w1" by (auto simp: Let_def)
    with ex Some show ?thesis
      by (intro exI[of _ 1] exI[of _ "[catalog w, c]"]) simp
  next
    case None
    with Cons.prems ex have "execute_ddlSQLs E ddls ?w1 = (r, w')" by (simp add: Let_def)
    from Cons.IH [OF this] obtain n cs where n: "n \<le> length ddls" "length cs = Suc n"
      "cs ! 0 = catalog ?w1" "cs ! n = catalog w'"
      "trace w' = trace ?w1 @ map (Call_ExecuteDDL []) (take n ddls)"
      "stores w' = stores ?w1" "opened w' = opened ?w1"
      "\<forall>i<n. ExecuteDDL E [] (ddls ! i) (cs ! i) = (if Suc i = n then r else None, cs ! Suc i)"
      "r = None \<longrightarrow> n = length ddls" "r \<noteq> None \<longrightarrow> 0 < n"
      by blast
    have first: "ExecuteDDL E [] ddl (catalog w) = (if Suc 0 = Suc n then r else None, c)"
      using ex None n(10) by auto
    have steps: "ExecuteDDL E [] ((ddl # ddls) ! i) ((catalog w # cs) ! i) =
             (if Suc i = Suc n then r else None, (catalog w # cs) ! Suc i)" if "i < Suc n" for i
    proof (cases i)
      case 0
      with first n(3) show ?thesis by simp
    next
      case (Suc j)
      with that n(8) show ?thesis by simp
    qed
    show ?thesis
      using n steps
      by (intro exI[of _ "Suc n"] exI[of _ "catalog w # cs"]) simp
  qed
qed

lemma execute_ddlSQLs_frame:
  "stores (snd (execute_ddlSQLs E ddls w)) = stores w \<and>
   opened (snd (execute_ddlSQLs E ddls w)) = opened w"
  by (induction ddls arbitrary: w) (auto simp: Let_def split: prod.splits option.splits)

lemma execute_events:
  assumes "execute E h w = (r, w')"
  shows "\<exists>evs. trace w' = trace w @ Enter_execute # evs \<and> (\<forall>e\<in>set evs. is_ddl_call e)"
proof (cases "ddlJobs h = []")
  case True
  with assms have "execute_ddlSQLs E (ddlSQLs h) (emit Enter_execute w) = (r, w')"
    by (simp add: execute_def Let_def)
  from execute_ddlSQLs_trace [OF this] obtain n where
    "trace w' = trace (emit Enter_execute w) @ map (Call_ExecuteDDL []) (take n (ddlSQLs h))"
    by blast
  then show ?thesis by auto
next
  case False
  with assms show ?thesis
    by (auto simp: execute_def Let_def split: prod.splits)
qed

lemma is_ddl_call_neq:
  "is_ddl_call e \<Longrightarrow> e \<noteq> Enter_execute \<and> e \<noteq> Call_Reduce \<and> e \<noteq> Call_Map s t"
  by (cases e) auto

lemma is_resolver_event_neq:
  "is_resolver_event e \<Longrightarrow> e \<noteq> Enter_execute \<and> e \<noteq> Call_Reduce \<and> e \<noteq> Call_Map s t"
  by (cases e) auto

lemma createTiStore_events:
  assumes "createTiStore E urls w = (r, w')"
  shows "\<exists>evs. trace w' = trace w @ evs \<and> (\<forall>e\<in>set evs. is_resolver_event e)"
  using assms
  by (auto simp: createTiStore_def store_Register_def Let_def
      split: sum.splits option.splits if_splits)

lemma getSnapshotMeta_events:
  assumes "getSnapshotMeta E st w = (r, w')"
  shows "\<exists>evs. trace w' = trace w @ evs \<and> (\<forall>e\<in>set evs. is_resolver_event e)"
  using assms
  by (auto simp: getSnapshotMeta_def Let_def split: sum.splits option.splits)

lemma loadHistoryDDLJobs_deferred_events:
  assumes "loadHistoryDDLJobs_deferred E st b w = (r, w')"
  shows "\<exists>evs. trace w' = trace w @ evs \<and> (\<forall>e\<in>set evs. is_resolver_event e)"
proof (cases "getSnapshotMeta E st w")
  case (Pair m w1)
  from getSnapshotMeta_events [OF Pair] obtain evs1 where
    e1: "trace w1 = trace w @ evs1" "\<forall>e\<in>set evs1. is_resolver_event e" by blast
  show ?thesis
  proof (cases m)
    case (Inl e)
    with assms Pair e1 show ?thesis by (auto simp: loadHistoryDDLJobs_deferred_def)
  next
    case (Inr sv)
    obtain st' ver where sv: "sv = (st', ver)" by (cases sv)
    show ?thesis
    proof (cases "GetAllHistoryDDLJobs E st' ver")
      case (Inl e)
      with assms Pair Inr sv e1 show ?thesis
        by (auto simp: loadHistoryDDLJobs_deferred_def Let_def)
    next
      case (Inr allJobs)
      with assms Pair \<open>m = Inr sv\<close> sv
      have "w' = snd (select_jobs b (sort_Slice E job_less allJobs) []
                   (emit (Call_GetAllHistoryDDLJobs st' ver) w1))"
        by (auto simp: loadHistoryDDLJobs_deferred_def Let_def split: prod.splits)
      with e1 show ?thesis by (auto simp: select_jobs_trace)
    qed
  qed
qed

lemma loadHistoryDDLJobs_events:
  assumes "loadHistoryDDLJobs E cfg b w = (r, w')"
  shows "\<exists>evs. trace w' = trace w @ evs \<and> (\<forall>e\<in>set evs. is_resolver_event e)"
proof (cases "createTiStore E (PDURLs cfg) w")
  case (Pair c w1)
  from createTiStore_events [OF Pair] obtain evs1 where
    e1: "trace w1 = trace w @ evs1" "\<forall>e\<in>set evs1. is_resolver_event e" by blast
  show ?thesis
  proof (cases c)
    case (Inl e)
    with assms Pair e1 show ?thesis by (auto simp: loadHistoryDDLJobs_def)
  next
    case (Inr st)
    obtain res w2 where d: "loadHistoryDDLJobs_deferred E st b w1 = (res, w2)"
      by (cases "loadHistoryDDLJobs_deferred E st b w1")
    from loadHistoryDDLJobs_deferred_events [OF d] obtain evs2 where
      e2: "trace w2 = trace w1 @ evs2" "\<forall>e\<in>set evs2. is_resolver_event e" by blast
    from assms Pair Inr d
    have "w' = store_UnRegister ''tikv'' (Storage_Close st w2)"
      by (simp add: loadHistoryDDLJobs_def Let_def)
    with e1 e2 show ?thesis
      by (auto simp: store_UnRegister_def Storage_Close_def Let_def)
  qed
qed

lemma fetchDDLBeforeStartTSO_events:
  assumes "fetchDDLBeforeStartTSO E cfg s w = (r, w')"
  shows "\<exists>evs. trace w' = trace w @ evs \<and> (\<forall>e\<in>set evs. is_resolver_event e)"
proof (cases "schemaFile cfg = []")
  case False
  with assms show ?thesis
    by (auto simp: fetchDDLBeforeStartTSO_def LoadBaseSchema_def Let_def split: sum.splits)
next
  case True
  show ?thesis
  proof (cases "PDURLs cfg = []")
    case True
    with \<open>schemaFile cfg = []\<close> assms show ?thesis
      by (auto simp: fetchDDLBeforeStartTSO_def)
  next
    case False
    with \<open>schemaFile cfg = []\<close> assms
    have "snd (loadHistoryDDLJobs E cfg s w) = w'"
      by (auto simp: fetchDDLBeforeStartTSO_def Let_def split: prod.splits)
    then have "loadHistoryDDLJobs E cfg s w = (fst (loadHistoryDDLJobs E cfg s w), w')"
      by (metis prod.collapse)
    then show ?thesis by (rule loadHistoryDDLJobs_events)
  qed
qed

subsection \<open>The run after the shards are chosen\<close>

lemma Process_deferred_no_event:
  assumes run: "Process_deferred E cfg h startTSO w = (r, w')"
      and pre: "\<forall>e\<in>set (trace w). e \<noteq> Enter_execute \<and> e \<noteq> Call_Reduce \<and> e \<noteq> Call_Map s t"
      and called: "Call_Map s t \<in> set (trace w')"
      and found: "merge_Map E s t = Inr True"
  shows "r = None \<and> Call_Reduce \<notin> set (trace w') \<and> count_list (trace w') Enter_execute = 1"
proof (cases "execute E h w")
  case (Pair err w1)
  from execute_events [OF Pair] obtain evs where
    evs: "trace w1 = trace w @ Enter_execute # evs" "\<forall>e\<in>set evs. is_ddl_call e" by blast
  have evs_neq: "\<forall>e\<in>set evs. e \<noteq> Enter_execute \<and> e \<noteq> Call_Reduce \<and> e \<noteq> Call_Map s t"
    using evs(2) is_ddl_call_neq by blast
  have no_map1: "Call_Map s t \<notin> set (trace w1)"
    using pre evs(1) evs_neq by auto
  have cnt0: "count_list (trace w) Enter_execute = 0"
    using pre by (auto simp: count_list_0_iff)
  have cnt_evs: "count_list evs Enter_execute = 0"
    using evs_neq by (auto simp: count_list_0_iff)
  have cnt1: "count_list (trace w1) Enter_execute = 1"
    using cnt0 cnt_evs evs(1) by simp
  have no_red1: "Call_Reduce \<notin> set (trace w1)"
    using pre evs(1) evs_neq by auto
  show ?thesis
  proof (cases err)
    case (Some e)
    with run Pair have "w' = w1" by (simp add: Process_deferred_def)
    with called no_map1 show ?thesis by simp
  next
    case None
    show ?thesis
    proof (cases "merge_Map E startTSO (StopTSO cfg)")
      case (Inl e)
      with run Pair None have "trace w' = trace w1 @ [Call_Map startTSO (StopTSO cfg)]"
        by (auto simp: Process_deferred_def Let_def)
      with called no_map1 have "s = startTSO \<and> t = StopTSO cfg" by auto
      with Inl found show ?thesis by simp
    next
      case (Inr noEventIsFound)
      show ?thesis
      proof (cases noEventIsFound)
        case True
        with run Pair None Inr
        have "r = None" and "trace w' = trace w1 @ [Call_Map startTSO (StopTSO cfg),
            Log_Info (Msg ''no event is found between [%d, %d]''
                        [ArgInt startTSO, ArgInt (StopTSO cfg)])]"
          by (auto simp: Process_deferred_def Let_def)
        with cnt1 no_red1 show ?thesis by simp
      next
        case False
        have "s = startTSO \<and> t = StopTSO cfg"
        proof (cases "execute E h (emit (Call_Map startTSO (StopTSO cfg)) w1)")
          case (Pair err2 w3)
          from execute_events [OF Pair] obtain evs2 where
            evs2: "trace w3 = trace w1 @ Call_Map startTSO (StopTSO cfg) # Enter_execute # evs2"
              "\<forall>e\<in>set evs2. is_ddl_call e" by auto
          have "\<forall>e\<in>set evs2. e \<noteq> Call_Map s t" using evs2(2) is_ddl_call_neq by blast
          moreover from run \<open>execute E h w = (err, w1)\<close> None Inr False Pair
          have "set (trace w') \<subseteq> set (trace w3) \<union> {Call_Reduce}"
            by (auto simp: Process_deferred_def Let_def split: option.splits)
          ultimately show ?thesis using called no_map1 evs2(1) by auto
        qed
        with Inr False found show ?thesis by simp
      qed
    qed
  qed
qed

lemma Process_from_history_no_event:
  assumes run: "Process_from_history E cfg files fileSize startTSO w = (r, w')"
      and pre: "\<forall>e\<in>set (trace w). e \<noteq> Enter_execute \<and> e \<noteq> Call_Reduce \<and> e \<noteq> Call_Map s t"
      and called: "Call_Map s t \<in> set (trace w')"
      and found: "merge_Map E s t = Inr True"
  shows "r = None \<and> Call_Reduce \<notin> set (trace w') \<and> count_list (trace w') Enter_execute = 1"
proof (cases "fetchDDLBeforeStartTSO E cfg startTSO w")
  case (Pair he w1)
  obtain h err where he: "he = (h, err)" by (cases he)
  from fetchDDLBeforeStartTSO_events [OF Pair] obtain evs where
    evs: "trace w1 = trace w @ evs" "\<forall>e\<in>set evs. is_resolver_event e" by blast
  have pre1: "\<forall>e\<in>set (trace w1). e \<noteq> Enter_execute \<and> e \<noteq> Call_Reduce \<and> e \<noteq> Call_Map s t"
    using pre evs is_resolver_event_neq by auto
  show ?thesis
  proof (cases err)
    case (Some e)
    with run Pair he have "w' = w1" by (simp add: Process_from_history_def)
    with called pre1 show ?thesis by auto
  next
    case None
    let ?w2 = "emit (Call_NewMerge files fileSize) w1"
    have pre2: "\<forall>e\<in>set (trace ?w2). e \<noteq> Enter_execute \<and> e \<noteq> Call_Reduce \<and> e \<noteq> Call_Map s t"
      using pre1 by auto
    show ?thesis
    proof (cases "NewMerge E files fileSize")
      case (Some e)
      with run Pair he None have "w' = ?w2" by (simp add: Process_from_history_def Let_def)
      with called pre2 show ?thesis by auto
    next
      case nm: None
      obtain res w3 where d: "Process_deferred E cfg h startTSO ?w2 = (res, w3)"
        by (cases "Process_deferred E cfg h startTSO ?w2")
      with run Pair he None nm
      have r: "r = res" and w': "w' = emit (Call_merge_Close (reserveTempDir cfg)) w3"
        by (simp_all add: Process_from_history_def Let_def)
      from called w' have "Call_Map s t \<in> set (trace w3)" by simp
      from Process_deferred_no_event [OF d pre2 this found] r w' show ?thesis by simp
    qed
  qed
qed

subsection \<open>Empty discovery\<close>

lemma Process_no_files_nil:
  "searchFiles E (Dir cfg) = Inr [] \<Longrightarrow> fst (Process E cfg w) = None"
  by (simp add: Process_def Let_def)

lemma Process_none_in_window_nil:
  "searchFiles E (Dir cfg) = Inr files \<Longrightarrow> files \<noteq> [] \<Longrightarrow>
   filterFiles E files (StartTSO cfg) (StopTSO cfg) = Inr ([], fileSize) \<Longrightarrow>
   fst (Process E cfg w) = None"
  by (simp add: Process_def Let_def)

subsection \<open>The store handle and the driver registration\<close>

lemma getSnapshotMeta_frame:
  "stores (snd (getSnapshotMeta E st w)) = stores w \<and>
   opened (snd (getSnapshotMeta E st w)) = opened w"
  by (simp add: getSnapshotMeta_def Let_def split: sum.splits option.splits)

lemma loadHistoryDDLJobs_deferred_frame:
  "stores (snd (loadHistoryDDLJobs_deferred E st b w)) = stores w \<and>
   opened (snd (loadHistoryDDLJobs_deferred E st b w)) = opened w"
proof (cases "getSnapshotMeta E st w")
  case (Pair m w1)
  with getSnapshotMeta_frame [of E st w]
  have f: "stores w1 = stores w" "opened w1 = opened w" by simp_all
  show ?thesis
    using Pair f
    by (auto simp: loadHistoryDDLJobs_deferred_def Let_def select_jobs_frame split_beta
        split: sum.splits)
qed

lemma createTiStore_Inr:
  assumes "createTiStore E urls w = (Inr st, w1)"
  shows "stores w1 = ''tikv'' # stores w \<and> opened w1 = st # opened w \<and> ''tikv'' \<notin> set (stores w)"
  using assms
  by (auto simp: createTiStore_def store_Register_def Let_def
      split: sum.splits option.splits if_splits)

lemma loadHistoryDDLJobs_releases:
  assumes "createTiStore E (PDURLs cfg) w = (Inr st, w1)"
  shows "''tikv'' \<notin> set (stores (snd (loadHistoryDDLJobs E cfg b w))) \<and>
         opened (snd (loadHistoryDDLJobs E cfg b w)) = opened w"
proof -
  from createTiStore_Inr [OF assms]
  have c: "stores w1 = ''tikv'' # stores w" "opened w1 = st # opened w" by simp_all
  from loadHistoryDDLJobs_deferred_frame [of E st b w1] c
  show ?thesis
    using assms
    by (simp add: loadHistoryDDLJobs_def Let_def split_beta store_UnRegister_def
        Storage_Close_def)
qed

lemma loadHistoryDDLJobs_leaks:
  assumes "NewURLsValue E (PDURLs cfg) = Inr host"
      and "''tikv'' \<notin> set (stores w)"
      and "store_New E (''tikv://'' @ host @ ''?disableGC=true'') = Some e"
  shows "fst (loadHistoryDDLJobs E cfg b w) = ([], Some (Traced (Traced e))) \<and>
         ''tikv'' \<in> set (stores (snd (loadHistoryDDLJobs E cfg b w)))"
  using assms
  by (simp add: loadHistoryDDLJobs_def createTiStore_def store_Register_def Let_def)

subsection \<open>The split\<close>

lemma strings_Split_not_Nil [simp]: "strings_Split s sep \<noteq> []"
  by (induction s) (auto split: list.splits)

lemma strings_Join_Split: "strings_Join (strings_Split s sep) sep = s"
proof (induction s)
  case Nil
  then show ?case by simp
next
  case (Cons c s)
  obtain p ps where sp: "strings_Split s sep = p # ps"
    by (cases "strings_Split s sep") auto
  with Cons show ?case by (cases ps) auto
qed

lemma strings_Split_pieces: "p \<in> set (strings_Split s sep) \<Longrightarrow> sep \<notin> set p"
  by (induction s arbitrary: p) (auto split: if_splits list.splits)

lemma strings_Split_length: "length (strings_Split s sep) = Suc (count_list s sep)"
  by (induction s) (auto split: list.splits)

lemma strings_Split_piece: "sep \<notin> set p \<Longrightarrow> strings_Split p sep = [p]"
  by (induction p) auto

lemma strings_Split_append:
  "sep \<notin> set p \<Longrightarrow> strings_Split (p @ sep # s) sep = p # strings_Split s sep"
  by (induction p) auto

lemma strings_Split_Join:
  "ps \<noteq> [] \<Longrightarrow> \<forall>p\<in>set ps. sep \<notin> set p \<Longrightarrow> strings_Split (strings_Join ps sep) sep = ps"
  by (induction ps sep rule: strings_Join.induct)
     (auto simp: strings_Split_piece strings_Split_append)

subsection \<open>A second pass of execute\<close>

text \<open>
  \<open>execute\<close> applies its source again as it is. When applying each operation of the
  source to the catalog at hand succeeds and leaves it as it is, so does \<open>execute\<close>.
\<close>

lemma execute_ddlSQLs_noop:
  assumes "\<forall>ddl\<in>set ddls. ExecuteDDL E [] ddl (catalog w) = (None, catalog w)"
  shows "fst (execute_ddlSQLs E ddls w) = None \<and>
         catalog (snd (execute_ddlSQLs E ddls w)) = catalog w"
  using assms
proof (induction ddls arbitrary: w)
  case Nil
  then show ?case by simp
next
  case (Cons ddl ddls)
  let ?w1 = "emit (Call_ExecuteDDL [] ddl) (w\<lparr>catalog := catalog w\<rparr>)"
  have "\<forall>d\<in>set ddls. ExecuteDDL E [] d (catalog ?w1) = (None, catalog ?w1)"
    using Cons.prems by simp
  from Cons.IH [OF this] Cons.prems show ?case by (simp add: Let_def)
qed

lemma execute_again_noop:
  assumes "ddlJobs h \<noteq> [] \<longrightarrow> ExecuteHistoryDDLs E (ddlJobs h) (catalog w) = (None, catalog w)"
      and "ddlJobs h = [] \<longrightarrow>
             (\<forall>ddl\<in>set (ddlSQLs h). ExecuteDDL E [] ddl (catalog w) = (None, catalog w))"
  shows "fst (execute E h w) = None \<and> catalog (snd (execute E h w)) = catalog w"
proof (cases "ddlJobs h = []")
  case True
  with assms(2) have "\<forall>ddl\<in>set (ddlSQLs h).
      ExecuteDDL E [] ddl (catalog (emit Enter_execute w)) = (None, catalog (emit Enter_execute w))"
    by simp
  from execute_ddlSQLs_noop [OF this] True show ?thesis
    by (simp add: execute_def Let_def)
next
  case False
  with assms(1) show ?thesis by (simp add: execute_def Let_def)
qed

section \<open>The claims\<close>

text \<open>
  C1. In every run of \<open>Process\<close> (started with an empty trace) in which \<open>merge.Map\<close> is
  called and reports that no event was found, \<open>Process\<close> returns \<open>nil\<close>, \<open>merge.Reduce\<close>
  is never called, and \<open>execute\<close> is entered exactly once: there is no second pass.
\<close>

theorem C1_no_event_short_circuit:
  assumes run: "Process E cfg w = (r, w')"
      and fresh: "trace w = []"
      and called: "Call_Map s t \<in> set (trace w')"
      and found: "merge_Map E s t = Inr True"
  shows "r = None \<and> Call_Reduce \<notin> set (trace w') \<and> count_list (trace w') Enter_execute = 1"
proof -
  have main: "r = None \<and> Call_Reduce \<notin> set (trace w') \<and> count_list (trace w') Enter_execute = 1"
    if "Process_from_history E cfg files fileSize startTSO w0 = (r, w')"
      and "set (trace w0) \<subseteq> {Call_searchFiles (Dir cfg),
             Call_filterFiles files0 (StartTSO cfg) (StopTSO cfg),
             Call_getFirstBinlogCommitTSAndFileSize file0}"
    for files fileSize startTSO w0 files0 file0
  proof -
    have "\<forall>e\<in>set (trace w0). e \<noteq> Enter_execute \<and> e \<noteq> Call_Reduce \<and> e \<noteq> Call_Map s t"
      using that(2) by auto
    from Process_from_history_no_event [OF that(1) this called found] show ?thesis .
  qed
  let ?w1 = "emit (Call_searchFiles (Dir cfg)) w"
  show ?thesis
  proof (cases "searchFiles E (Dir cfg)")
    case (Inl e)
    with run fresh called show ?thesis by (auto simp: Process_def Let_def)
  next
    case (Inr files0)
    let ?w2 = "emit (Call_filterFiles files0 (StartTSO cfg) (StopTSO cfg)) ?w1"
    show ?thesis
    proof (cases "files0 = []")
      case True
      with run fresh called Inr show ?thesis by (auto simp: Process_def Let_def)
    next
      case False
      show ?thesis
      proof (cases "filterFiles E files0 (StartTSO cfg) (StopTSO cfg)")
        case (Inl e)
        with run fresh called Inr False show ?thesis by (auto simp: Process_def Let_def)
      next
        case ff: (Inr p)
        obtain files fileSize where p: "p = (files, fileSize)" by (cases p)
        show ?thesis
        proof (cases files)
          case Nil
          with run fresh called Inr False ff p show ?thesis
            by (auto simp: Process_def Let_def)
        next
          case (Cons file0 rest)
          show ?thesis
          proof (cases "StartTSO cfg = 0")
            case nz: False
            with run Inr False ff p Cons
            have "Process_from_history E cfg files fileSize (StartTSO cfg) ?w2 = (r, w')"
              by (simp add: Process_def Let_def)
            then show ?thesis by (rule main) (use fresh in auto)
          next
            case z: True
            let ?w3 = "emit (Call_getFirstBinlogCommitTSAndFileSize file0) ?w2"
            show ?thesis
            proof (cases "getFirstBinlogCommitTSAndFileSize E file0")
              case (Inl e)
              with run fresh called \<open>searchFiles E (Dir cfg) = Inr files0\<close> False ff p Cons z
              show ?thesis by (auto simp: Process_def Let_def)
            next
              case gf: (Inr q)
              obtain startTSO sz where q: "q = (startTSO, sz)" by (cases q)
              with run \<open>searchFiles E (Dir cfg) = Inr files0\<close> False ff p Cons z gf
              have "Process_from_history E cfg files fileSize startTSO ?w3 = (r, w')"
                by (simp add: Process_def Let_def)
              then show ?thesis by (rule main) (use fresh in auto)
            qed
          qed
        qed
      qed
    qed
  qed
qed

theorem C1_no_event_short_circuit_witness:
  "fst (Process E_no_event cfg_both w_init) = None \<and>
   Call_Reduce \<notin> set (trace (snd (Process E_no_event cfg_both w_init))) \<and>
   count_list (trace (snd (Process E_no_event cfg_both w_init))) Enter_execute = 1"
proof -
  have run: "Process E_no_event cfg_both w_init =
     (fst (Process E_no_event cfg_both w_init), snd (Process E_no_event cfg_both w_init))"
    by simp
  have fresh: "trace w_init = []"
    by (simp add: w_init_def)
  have called: "Call_Map 100 0 \<in> set (trace (snd (Process E_no_event cfg_both w_init)))"
    by (simp add: model_defs demo_defs)
  have found: "merge_Map E_no_event 100 0 = Inr True"
    by (simp add: E_no_event_def)
  show ?thesis by (rule C1_no_event_short_circuit [OF run fresh called found])
qed

text \<open>
  C2. When \<open>searchFiles\<close> finds no file, and when \<open>filterFiles\<close> keeps none, \<open>Process\<close>
  annotates the \<open>nil\<close> error of the call before, which is \<open>nil\<close>: it returns \<open>nil\<close>,
  not an error.
\<close>

theorem C2_no_files_returns_nil:
  "fst (Process E_no_files cfg_both w_init) = None \<and>
   fst (Process E_none_in_window cfg_both w_init) = None"
  by (simp add: model_defs demo_defs)

text \<open>
  C3. Whenever the store is created, the snapshot is taken and it enumerates \<open>allJobs\<close>,
  \<open>loadHistoryDDLJobs\<close> returns without error, and a job of \<open>allJobs\<close> is in its result
  if and only if \<open>int64(FinishedTS) < startTSO\<close>; a job that finishes exactly at
  \<open>startTSO\<close> is left out, and every job left out is logged.
\<close>

theorem C3_retained_iff_finished_before_start:
  assumes "sort_Slice_contract (sort_Slice E)"
      and "createTiStore E (PDURLs cfg) w = (Inr st, w1)"
      and "getSnapshotMeta E st w1 = (Inr (st', ver), w2)"
      and "GetAllHistoryDDLJobs E st' ver = Inr allJobs"
  shows "\<exists>jobs w'. loadHistoryDDLJobs E cfg startTSO w = ((jobs, None), w') \<and>
           set jobs \<subseteq> set allJobs \<and>
           (\<forall>J\<in>set allJobs. J \<in> set jobs \<longleftrightarrow> sint (FinishedTS J) < sint startTSO) \<and>
           (\<forall>J\<in>set allJobs. FinishedTS J = startTSO \<longrightarrow> J \<notin> set jobs) \<and>
           (\<forall>J\<in>set allJobs. J \<notin> set jobs \<longrightarrow>
              Log_Info (Msg ''ignore history ddl job'' [ArgJob J]) \<in> set (trace w'))"
proof -
  let ?P = "\<lambda>j. sint (FinishedTS j) < sint startTSO"
  let ?sorted = "sort_Slice E job_less allJobs"
  let ?d = "loadHistoryDDLJobs_deferred E st startTSO w1"
  have set_sorted: "set ?sorted = set allJobs"
    using assms(1) by (metis sort_Slice_contract_def set_mset_mset)
  have res: "fst ?d = (filter ?P ?sorted, None)"
    by (rule loadHistoryDDLJobs_deferred_ok(1) [OF assms(3,4)])
  have tr: "trace (snd ?d) = trace w2 @ Call_GetAllHistoryDDLJobs st' ver #
             map (\<lambda>j. Log_Info (Msg ''ignore history ddl job'' [ArgJob j])) (filter (\<lambda>j. \<not> ?P j) ?sorted)"
    by (rule loadHistoryDDLJobs_deferred_ok(2) [OF assms(3,4)])
  define w' where "w' = store_UnRegister ''tikv'' (Storage_Close st (snd ?d))"
  have load: "loadHistoryDDLJobs E cfg startTSO w = ((filter ?P ?sorted, None), w')"
    using assms(2) res by (simp add: loadHistoryDDLJobs_def Let_def split_beta w'_def)
  have trw: "set (trace (snd ?d)) \<subseteq> set (trace w')"
    by (auto simp: w'_def store_UnRegister_def Storage_Close_def Let_def)
  have logged: "Log_Info (Msg ''ignore history ddl job'' [ArgJob J]) \<in> set (trace w')"
    if "J \<in> set allJobs" "\<not> ?P J" for J
  proof -
    have "J \<in> set (filter (\<lambda>j. \<not> ?P j) ?sorted)" using that set_sorted by simp
    then have "Log_Info (Msg ''ignore history ddl job'' [ArgJob J]) \<in> set (trace (snd ?d))"
      unfolding tr by auto
    with trw show ?thesis by blast
  qed
  show ?thesis
    using load set_sorted logged by (intro exI[of _ "filter ?P ?sorted"] exI[of _ w']) auto
qed

theorem C3_retained_iff_finished_before_start_witness:
  "\<exists>jobs w'. loadHistoryDDLJobs E_ok cfg_pd 100 w_init = ((jobs, None), w') \<and>
     set jobs \<subseteq> set [job_a, job_b, job_c, job_d] \<and>
     (\<forall>J\<in>set [job_a, job_b, job_c, job_d]. J \<in> set jobs \<longleftrightarrow> sint (FinishedTS J) < sint (100::int64)) \<and>
     (\<forall>J\<in>set [job_a, job_b, job_c, job_d]. FinishedTS J = 100 \<longrightarrow> J \<notin> set jobs) \<and>
     (\<forall>J\<in>set [job_a, job_b, job_c, job_d]. J \<notin> set jobs \<longrightarrow>
        Log_Info (Msg ''ignore history ddl job'' [ArgJob J]) \<in> set (trace w'))"
proof -
  have c: "sort_Slice_contract (sort_Slice E_ok)"
    by (simp add: E_ok_def insertion_sort_contract)
  have s: "createTiStore E_ok (PDURLs cfg_pd) w_init =
     (Inr ''tikv://127.0.0.1:2379?disableGC=true'',
      snd (createTiStore E_ok (PDURLs cfg_pd) w_init))"
    by (simp add: model_defs demo_defs)
  have m: "getSnapshotMeta E_ok ''tikv://127.0.0.1:2379?disableGC=true''
             (snd (createTiStore E_ok (PDURLs cfg_pd) w_init)) =
     (Inr (''tikv://127.0.0.1:2379?disableGC=true'', 400),
      snd (getSnapshotMeta E_ok ''tikv://127.0.0.1:2379?disableGC=true''
             (snd (createTiStore E_ok (PDURLs cfg_pd) w_init))))"
    by (simp add: model_defs demo_defs)
  have g: "GetAllHistoryDDLJobs E_ok ''tikv://127.0.0.1:2379?disableGC=true'' 400 =
     Inr [job_a, job_b, job_c, job_d]"
    by (simp add: E_ok_def)
  show ?thesis by (rule C3_retained_iff_finished_before_start [OF c s m g])
qed

text \<open>
  C4. Whatever the order in which the snapshot enumerates the jobs, the jobs that
  \<open>loadHistoryDDLJobs\<close> returns are in ascending order of \<open>SchemaVersion\<close>, for every
  \<open>sort.Slice\<close> that meets its contract.
\<close>

theorem C4_jobs_sorted_by_schema_version:
  assumes "sort_Slice_contract (sort_Slice E)"
      and "loadHistoryDDLJobs E cfg startTSO w = ((jobs, err), w')"
  shows "sorted_wrt (\<lambda>a b. sint (SchemaVersion a) \<le> sint (SchemaVersion b)) jobs"
proof -
  have "jobs = fst (fst (loadHistoryDDLJobs E cfg startTSO w))"
    using assms(2) by simp
  with loadHistoryDDLJobs_jobs_cases [of E cfg startTSO w]
  show ?thesis using sorted_by_SchemaVersion [OF assms(1)] by auto
qed

theorem C4_jobs_sorted_by_schema_version_witness:
  "sorted_wrt (\<lambda>a b. sint (SchemaVersion a) \<le> sint (SchemaVersion b))
     (fst (fst (loadHistoryDDLJobs E_ok cfg_pd 100 w_init))) \<and>
   fst (fst (loadHistoryDDLJobs E_ok cfg_pd 100 w_init)) = [job_b, job_c, job_a]"
proof -
  have c: "sort_Slice_contract (sort_Slice E_ok)"
    by (simp add: E_ok_def insertion_sort_contract)
  have r: "loadHistoryDDLJobs E_ok cfg_pd 100 w_init =
     ((fst (fst (loadHistoryDDLJobs E_ok cfg_pd 100 w_init)),
       snd (fst (loadHistoryDDLJobs E_ok cfg_pd 100 w_init))),
      snd (loadHistoryDDLJobs E_ok cfg_pd 100 w_init))"
    by simp
  from C4_jobs_sorted_by_schema_version [OF c r] show ?thesis by (simp add: model_defs demo_defs)
qed

text \<open>
  C5. \<open>isAcceptableBinlog\<close> is the predicate of the specification on the signed values:
  \<open>commitTs \<ge> s\<close> and (\<open>t = 0\<close> or \<open>commitTs \<le> t\<close>). A commit timestamp equal to \<open>s\<close>
  passes the lower bound, one equal to \<open>t\<close> passes the upper bound, and \<open>t = 0\<close> leaves
  only the lower bound.
\<close>

theorem C5_isAcceptableBinlog_window:
  "isAcceptableBinlog binlog s t =
     isAcceptable_spec (sint (CommitTs binlog)) (sint s) (sint t) \<and>
   (isAcceptableBinlog \<lparr>CommitTs = s\<rparr> s t \<longleftrightarrow> t = 0 \<or> sint s \<le> sint t) \<and>
   (isAcceptableBinlog \<lparr>CommitTs = t\<rparr> s t \<longleftrightarrow> sint s \<le> sint t) \<and>
   (isAcceptableBinlog binlog s 0 \<longleftrightarrow> sint s \<le> sint (CommitTs binlog))"
  by (auto simp: isAcceptableBinlog_def isAcceptable_spec_def signed_eq_0_iff)

text \<open>
  C6. The source is chosen by the first case that matches. With a schema file the
  result holds the lines of the file and no job, and the only call made is the read of
  the file: no call of the store, whatever \<open>PDURLs\<close> is. With no schema file and with
  \<open>PDURLs\<close> the result holds the jobs of \<open>loadHistoryDDLJobs\<close> and no statement. With
  neither, the result is empty, without error, and \<open>execute\<close> on it returns \<open>nil\<close> and
  calls nothing.
\<close>

theorem C6_first_match_wins:
  assumes "fetchDDLBeforeStartTSO E cfg startTSO w = ((h, err), w')"
  shows "(schemaFile cfg \<noteq> [] \<longrightarrow>
            ddlJobs h = [] \<and> w' = emit (Call_ReadFile (schemaFile cfg)) w \<and>
            (\<forall>e\<in>set (trace w'). is_store_call e \<longrightarrow> e \<in> set (trace w)) \<and>
            (\<forall>content. ReadFile E (schemaFile cfg) = Inr content \<longrightarrow>
               ddlSQLs h = strings_Split content newline \<and> err = None) \<and>
            (\<forall>e. ReadFile E (schemaFile cfg) = Inl e \<longrightarrow>
               ddlSQLs h = [] \<and> err = Some (Traced e))) \<and>
         (schemaFile cfg = [] \<and> PDURLs cfg \<noteq> [] \<longrightarrow>
            ddlSQLs h = [] \<and>
            (\<exists>lerr. loadHistoryDDLJobs E cfg startTSO w = ((ddlJobs h, lerr), w') \<and>
                    err = Trace (Annotate lerr (Msg ''load history ddls'' [])))) \<and>
         (schemaFile cfg = [] \<and> PDURLs cfg = [] \<longrightarrow>
            h = \<lparr>ddlSQLs = [], ddlJobs = []\<rparr> \<and> err = None \<and> w' = w \<and>
            execute E h w' = (None, emit Enter_execute w'))"
proof (intro conjI impI)
  assume f: "schemaFile cfg \<noteq> []"
  with assms show "ddlJobs h = []" "w' = emit (Call_ReadFile (schemaFile cfg)) w"
    by (auto simp: fetchDDLBeforeStartTSO_def LoadBaseSchema_def Let_def split: sum.splits)
  then show "\<forall>e\<in>set (trace w'). is_store_call e \<longrightarrow> e \<in> set (trace w)"
    by auto
  from assms f show "\<forall>content. ReadFile E (schemaFile cfg) = Inr content \<longrightarrow>
               ddlSQLs h = strings_Split content newline \<and> err = None"
    by (auto simp: fetchDDLBeforeStartTSO_def LoadBaseSchema_def Let_def)
  from assms f show "\<forall>e. ReadFile E (schemaFile cfg) = Inl e \<longrightarrow>
               ddlSQLs h = [] \<and> err = Some (Traced e)"
    by (auto simp: fetchDDLBeforeStartTSO_def LoadBaseSchema_def Let_def)
next
  assume p: "schemaFile cfg = [] \<and> PDURLs cfg \<noteq> []"
  with assms show "ddlSQLs h = []"
    by (auto simp: fetchDDLBeforeStartTSO_def Let_def split: prod.splits)
  from assms p show "\<exists>lerr. loadHistoryDDLJobs E cfg startTSO w = ((ddlJobs h, lerr), w') \<and>
                    err = Trace (Annotate lerr (Msg ''load history ddls'' []))"
    by (auto simp: fetchDDLBeforeStartTSO_def Let_def split: prod.splits)
next
  assume n: "schemaFile cfg = [] \<and> PDURLs cfg = []"
  with assms show "h = \<lparr>ddlSQLs = [], ddlJobs = []\<rparr>" "err = None" "w' = w"
    by (auto simp: fetchDDLBeforeStartTSO_def)
  then show "execute E h w' = (None, emit Enter_execute w')"
    by (simp add: execute_def Let_def)
qed

theorem C6_first_match_wins_witness:
  "fetchDDLBeforeStartTSO E_ok cfg_both 100 w_init =
     ((\<lparr>ddlSQLs = [''t1;'', [], ''t2;'', []], ddlJobs = []\<rparr>, None),
      emit (Call_ReadFile ''schema.sql'') w_init) \<and>
   fst (fetchDDLBeforeStartTSO E_ok cfg_pd 100 w_init) =
     (\<lparr>ddlSQLs = [], ddlJobs = [job_b, job_c, job_a]\<rparr>, None) \<and>
   fetchDDLBeforeStartTSO E_ok cfg_neither 100 w_init =
     ((\<lparr>ddlSQLs = [], ddlJobs = []\<rparr>, None), w_init) \<and>
   execute E_ok \<lparr>ddlSQLs = [], ddlJobs = []\<rparr> w_init = (None, emit Enter_execute w_init)"
proof -
  have split3: "x = ((fst (fst x), snd (fst x)), snd x)" for x :: "(historyDDLHandler \<times> error option) \<times> (string list) world"
    by simp
  show ?thesis
    using C6_first_match_wins [OF split3 [of "fetchDDLBeforeStartTSO E_ok cfg_both 100 w_init"]]
      C6_first_match_wins [OF split3 [of "fetchDDLBeforeStartTSO E_ok cfg_pd 100 w_init"]]
      C6_first_match_wins [OF split3 [of "fetchDDLBeforeStartTSO E_ok cfg_neither 100 w_init"]]
    by (simp add: model_defs demo_defs)
qed

text \<open>
  C8. In every result of \<open>fetchDDLBeforeStartTSO\<close>, successful or not, \<open>ddlSQLs\<close> and
  \<open>ddlJobs\<close> are never both non-empty.
\<close>

theorem C8_at_most_one_variant:
  "ddlSQLs (fst (fst (fetchDDLBeforeStartTSO E cfg startTSO w))) = [] \<or>
   ddlJobs (fst (fst (fetchDDLBeforeStartTSO E cfg startTSO w))) = []"
  by (simp add: fetchDDLBeforeStartTSO_def Let_def split: prod.splits)

text \<open>
  C9. When \<open>store.New\<close> fails, \<open>createTiStore\<close> has registered the driver already and
  \<open>loadHistoryDDLJobs\<close> returns before its \<open>defer\<close>: the name \<open>tikv\<close> stays in the
  registry, \<open>UnRegister\<close> is never called, and the next call fails at \<open>Register\<close> even
  though the store can now be reached.
\<close>

theorem C9_registration_left_behind:
  "fst (loadHistoryDDLJobs E_store_down cfg_pd 100 w_init) =
     ([], Some (Traced (Traced (Failure ''connection refused'')))) \<and>
   ''tikv'' \<in> set (stores (snd (loadHistoryDDLJobs E_store_down cfg_pd 100 w_init))) \<and>
   Call_UnRegister ''tikv'' \<notin> set (trace (snd (loadHistoryDDLJobs E_store_down cfg_pd 100 w_init))) \<and>
   fst (loadHistoryDDLJobs E_ok cfg_pd 100
          (snd (loadHistoryDDLJobs E_store_down cfg_pd 100 w_init))) =
     ([], Some (Traced (Traced (Failure ''tikv is already registered''))))"
  by (simp add: model_defs demo_defs)

text \<open>
  C10, as amended. For a readable schema file \<open>LoadBaseSchema\<close> returns the content split
  at each newline, empty pieces included: joined by newlines the pieces give the content,
  no piece holds a newline, and there is one piece more than there are newlines.
  \<open>execute\<close> then passes the first \<open>n\<close> pieces to \<open>ExecuteDDL\<close>, with the empty schema
  name and in the order of the file, and calls nothing else. Each application acts on the
  catalog left by the one before (the catalogs \<open>cs\<close>, from the catalog at entry to the one
  at return); every application but the last returns \<open>nil\<close>, and the last returns what
  \<open>execute\<close> returns. So \<open>execute\<close> stops at the first piece whose application fails and
  returns its error, and when it returns \<open>nil\<close> every piece has been applied.
\<close>

theorem C10_split_then_apply_until_first_error:
  assumes rd: "ReadFile E (schemaFile cfg) = Inr content"
      and ld: "LoadBaseSchema E cfg w = ((ddls, err), w1)"
      and h: "ddlSQLs h = ddls" "ddlJobs h = []"
      and ex: "execute E h w2 = (r, w3)"
  shows "err = None \<and> ddls = strings_Split content newline \<and>
         strings_Join ddls newline = content \<and>
         length ddls = Suc (count_list content newline) \<and>
         (\<forall>p\<in>set ddls. newline \<notin> set p) \<and>
         (\<exists>n cs. n \<le> length ddls \<and> length cs = Suc n \<and>
            cs ! 0 = catalog w2 \<and> cs ! n = catalog w3 \<and>
            trace w3 = trace w2 @ Enter_execute # map (Call_ExecuteDDL []) (take n ddls) \<and>
            stores w3 = stores w2 \<and> opened w3 = opened w2 \<and>
            (\<forall>i<n. ExecuteDDL E [] (ddls ! i) (cs ! i) =
                      (if Suc i = n then r else None, cs ! Suc i)) \<and>
            (r = None \<longrightarrow> n = length ddls) \<and> (r \<noteq> None \<longrightarrow> 0 < n))"
proof -
  from rd ld have e: "err = None" and d: "ddls = strings_Split content newline"
    by (simp_all add: LoadBaseSchema_def Let_def)
  from ex h have "execute_ddlSQLs E ddls (emit Enter_execute w2) = (r, w3)"
    by (simp add: execute_def Let_def)
  from execute_ddlSQLs_steps [OF this]
  have "\<exists>n cs. n \<le> length ddls \<and> length cs = Suc n \<and>
            cs ! 0 = catalog w2 \<and> cs ! n = catalog w3 \<and>
            trace w3 = trace w2 @ Enter_execute # map (Call_ExecuteDDL []) (take n ddls) \<and>
            stores w3 = stores w2 \<and> opened w3 = opened w2 \<and>
            (\<forall>i<n. ExecuteDDL E [] (ddls ! i) (cs ! i) =
                      (if Suc i = n then r else None, cs ! Suc i)) \<and>
            (r = None \<longrightarrow> n = length ddls) \<and> (r \<noteq> None \<longrightarrow> 0 < n)"
    by simp
  with e d show ?thesis
    by (simp add: strings_Join_Split strings_Split_length strings_Split_pieces)
qed

theorem C10_split_then_apply_until_first_error_witness:
  "fst (LoadBaseSchema E_reject_empty cfg_both w_init) = ([''t1;'', [], ''t2;'', []], None) \<and>
   strings_Join [''t1;'', [], ''t2;'', []] newline = schema_content \<and>
   fst (execute E_reject_empty \<lparr>ddlSQLs = [''t1;'', [], ''t2;'', []], ddlJobs = []\<rparr> w_init) =
     Some (Failure ''query was empty'') \<and>
   catalog (snd (execute E_reject_empty
                   \<lparr>ddlSQLs = [''t1;'', [], ''t2;'', []], ddlJobs = []\<rparr> w_init)) = [''t1;''] \<and>
   trace (snd (execute E_reject_empty \<lparr>ddlSQLs = [''t1;'', [], ''t2;'', []], ddlJobs = []\<rparr> w_init)) =
     [Enter_execute, Call_ExecuteDDL [] ''t1;'', Call_ExecuteDDL [] []]"
proof -
  let ?h = "\<lparr>ddlSQLs = [''t1;'', [], ''t2;'', []], ddlJobs = []\<rparr>"
  have rd: "ReadFile E_reject_empty (schemaFile cfg_both) = Inr schema_content"
    by (simp add: demo_defs)
  have ld: "LoadBaseSchema E_reject_empty cfg_both w_init =
              (([''t1;'', [], ''t2;'', []], None), snd (LoadBaseSchema E_reject_empty cfg_both w_init))"
    by (simp add: model_defs demo_defs)
  have h: "ddlSQLs ?h = [''t1;'', [], ''t2;'', []]" "ddlJobs ?h = []"
    by simp_all
  have ex: "execute E_reject_empty ?h w_init =
              (fst (execute E_reject_empty ?h w_init), snd (execute E_reject_empty ?h w_init))"
    by simp
  from C10_split_then_apply_until_first_error [OF rd ld h ex] show ?thesis
    by (simp add: model_defs demo_defs)
qed

text \<open>
  C10, as stated, fails: where \<open>ExecuteDDL\<close> rejects the empty statement of the blank
  line, the statement after it is a piece of the file that is never passed on.
\<close>

theorem C10_later_statement_not_applied:
  "''t2;'' \<in> set (fst (fst (LoadBaseSchema E_reject_empty cfg_both w_init))) \<and>
   Call_ExecuteDDL [] ''t2;'' \<notin>
     set (trace (snd (execute E_reject_empty
                        (fst (fst (fetchDDLBeforeStartTSO E_reject_empty cfg_both 100 w_init)))
                        w_init))) \<and>
   Call_ExecuteDDL [] ''t2;'' \<notin> set (trace (snd (Process E_reject_empty cfg_both w_init)))"
  by (simp add: model_defs demo_defs)

end
